theory Spec2Isabelle
  imports Main "HOL-Library.Word"
begin

unbundle bit_operations_syntax

section \<open>Data model\<close>

text \<open>
  The ring of \<^verbatim>\<open>src/app/src/spsc_ring.c\<close>: cursors and sizes are \<^verbatim>\<open>uint32_t\<close>, the
  payload is a C \<^verbatim>\<open>int\<close> (a 32-bit word, read as two's complement by \<open>sint\<close>).
  Pointers are \<open>addr option\<close>, with \<open>None\<close> for \<^verbatim>\<open>NULL\<close>. The fields \<^verbatim>\<open>size\<close> and \<^verbatim>\<open>mask\<close>
  carry the suffix \<open>_r\<close>, since both names are constants of HOL.
\<close>

type_synonym u32 = "32 word"
type_synonym c_int = "32 word"
type_synonym addr = nat

record spsc_ring =
  buf :: "addr option"
  size_r :: u32
  mask_r :: u32
  head :: u32
  tail :: u32

text \<open>
  The heap holds the two kinds of block the program allocates: ring structures and
  arrays of \<^verbatim>\<open>int\<close>. \<open>next_addr\<close> is the address the allocator hands out next.
\<close>

record heap =
  ring_mem :: "addr \<rightharpoonup> spsc_ring"
  int_mem :: "addr \<rightharpoonup> c_int list"
  next_addr :: addr

text \<open>What C leaves undefined is a value of the model: a fault.\<close>

datatype fault = NullDeref | InvalidDeref | OutOfBounds | InvalidFree

text \<open>
  The atomic accesses of the source name a cursor and a memory order. Sequentially the
  order has no effect on the value; every operation returns the accesses it made, in
  program order, next to its result.
\<close>

datatype memory_order =
  memory_order_relaxed | memory_order_acquire | memory_order_release | memory_order_seq_cst

datatype cursor = Head | Tail

datatype access = Load cursor memory_order | Store cursor memory_order

section \<open>Memory primitives\<close>

definition zero_ring :: spsc_ring where
  "zero_ring = \<lparr>buf = None, size_r = 0, mask_r = 0, head = 0, tail = 0\<rparr>"

text \<open>
  \<^verbatim>\<open>calloc(1, sizeof(spsc_ring_t))\<close> and \<^verbatim>\<open>calloc(n, sizeof(int))\<close>. Whether an allocation
  succeeds is decided by the environment: the flag \<open>ok\<close>. A failed allocation returns
  \<^verbatim>\<open>NULL\<close> and leaves the heap as it was.
\<close>

definition calloc_ring :: "bool \<Rightarrow> heap \<Rightarrow> addr option \<times> heap" where
  "calloc_ring ok s =
     (if ok
      then (Some (next_addr s),
            s\<lparr>ring_mem := (ring_mem s)(next_addr s \<mapsto> zero_ring),
              next_addr := Suc (next_addr s)\<rparr>)
      else (None, s))"

definition calloc_int :: "bool \<Rightarrow> nat \<Rightarrow> heap \<Rightarrow> addr option \<times> heap" where
  "calloc_int ok n s =
     (if ok
      then (Some (next_addr s),
            s\<lparr>int_mem := (int_mem s)(next_addr s \<mapsto> replicate n 0),
              next_addr := Suc (next_addr s)\<rparr>)
      else (None, s))"

text \<open>\<^verbatim>\<open>free(p)\<close>: nothing for \<^verbatim>\<open>NULL\<close>, undefined for a block that is not allocated.\<close>

definition free_ring :: "addr option \<Rightarrow> heap \<Rightarrow> fault + heap" where
  "free_ring p s =
     (case p of
        None \<Rightarrow> Inr s
      | Some a \<Rightarrow>
          if ring_mem s a = None then Inl InvalidFree
          else Inr (s\<lparr>ring_mem := (ring_mem s)(a := None)\<rparr>))"

definition free_int :: "addr option \<Rightarrow> heap \<Rightarrow> fault + heap" where
  "free_int p s =
     (case p of
        None \<Rightarrow> Inr s
      | Some b \<Rightarrow>
          if int_mem s b = None then Inl InvalidFree
          else Inr (s\<lparr>int_mem := (int_mem s)(b := None)\<rparr>))"

text \<open>Dereferencing a ring pointer (\<^verbatim>\<open>ring->...\<close>).\<close>

definition load_ring :: "heap \<Rightarrow> addr option \<Rightarrow> fault + spsc_ring" where
  "load_ring s p =
     (case p of
        None \<Rightarrow> Inl NullDeref
      | Some a \<Rightarrow> (case ring_mem s a of None \<Rightarrow> Inl InvalidDeref | Some r \<Rightarrow> Inr r))"

text \<open>Reading and writing \<^verbatim>\<open>b[i]\<close> for an \<^verbatim>\<open>int *b\<close>.\<close>

definition load_int :: "heap \<Rightarrow> addr option \<Rightarrow> nat \<Rightarrow> fault + c_int" where
  "load_int s p i =
     (case p of
        None \<Rightarrow> Inl NullDeref
      | Some b \<Rightarrow>
          (case int_mem s b of
             None \<Rightarrow> Inl InvalidDeref
           | Some xs \<Rightarrow> if i < length xs then Inr (xs ! i) else Inl OutOfBounds))"

definition store_int :: "heap \<Rightarrow> addr option \<Rightarrow> nat \<Rightarrow> c_int \<Rightarrow> fault + heap" where
  "store_int s p i v =
     (case p of
        None \<Rightarrow> Inl NullDeref
      | Some b \<Rightarrow>
          (case int_mem s b of
             None \<Rightarrow> Inl InvalidDeref
           | Some xs \<Rightarrow>
               if i < length xs then Inr (s\<lparr>int_mem := (int_mem s)(b \<mapsto> xs[i := v])\<rparr>)
               else Inl OutOfBounds))"

text \<open>\<^verbatim>\<open>atomic_load_explicit\<close> and \<^verbatim>\<open>atomic_store_explicit\<close> on a cursor of a ring.\<close>

definition atomic_load_explicit :: "spsc_ring \<Rightarrow> cursor \<Rightarrow> memory_order \<Rightarrow> u32 \<times> access" where
  "atomic_load_explicit r c mo = ((case c of Head \<Rightarrow> head r | Tail \<Rightarrow> tail r), Load c mo)"

definition atomic_store_explicit ::
  "spsc_ring \<Rightarrow> cursor \<Rightarrow> u32 \<Rightarrow> memory_order \<Rightarrow> spsc_ring \<times> access" where
  "atomic_store_explicit r c v mo =
     ((case c of Head \<Rightarrow> r\<lparr>head := v\<rparr> | Tail \<Rightarrow> r\<lparr>tail := v\<rparr>), Store c mo)"

text \<open>Forgetting the accesses of an outcome.\<close>

definition result :: "fault + ('a \<times> access list) \<Rightarrow> fault + 'a" where
  "result x = (case x of Inl e \<Rightarrow> Inl e | Inr (y, _) \<Rightarrow> Inr y)"

section \<open>The operations\<close>

text \<open>
  \<^verbatim>\<open>spsc_ring_init\<close>. \<open>ok1\<close> and \<open>ok2\<close> are the outcomes of its two allocations. The
  writes to \<^verbatim>\<open>size\<close>, \<^verbatim>\<open>mask\<close> and \<^verbatim>\<open>buf\<close> go to the block just allocated, so they cannot
  fault; they are written back to the heap together, before \<^verbatim>\<open>buf\<close> is tested.
  \<^verbatim>\<open>atomic_store\<close> is the sequentially consistent store.
\<close>

definition spsc_ring_init ::
  "u32 \<Rightarrow> bool \<Rightarrow> bool \<Rightarrow> heap \<Rightarrow> fault + ((addr option \<times> heap) \<times> access list)" where
  "spsc_ring_init capacity ok1 ok2 s =
     (if capacity = 0 \<or> capacity AND (capacity - 1) \<noteq> 0 then Inr ((None, s), [])
      else
        (case calloc_ring ok1 s of
           (None, s1) \<Rightarrow> Inr ((None, s1), [])
         | (Some a, s1) \<Rightarrow>
             (case load_ring s1 (Some a) of
                Inl e \<Rightarrow> Inl e
              | Inr r0 \<Rightarrow>
                  let r1 = r0\<lparr>size_r := capacity\<rparr>;
                      r2 = r1\<lparr>mask_r := capacity - 1\<rparr>;
                      (b, s2) = calloc_int ok2 (unat capacity) s1;
                      r3 = r2\<lparr>buf := b\<rparr>;
                      s3 = s2\<lparr>ring_mem := (ring_mem s2)(a \<mapsto> r3)\<rparr>
                  in
                    if buf r3 = None then
                      (case free_ring (Some a) s3 of
                         Inl e \<Rightarrow> Inl e
                       | Inr s4 \<Rightarrow> Inr ((None, s4), []))
                    else
                      let (r4, a1) = atomic_store_explicit r3 Head 0 memory_order_seq_cst;
                          (r5, a2) = atomic_store_explicit r4 Tail 0 memory_order_seq_cst
                      in Inr ((Some a, s3\<lparr>ring_mem := (ring_mem s3)(a \<mapsto> r5)\<rparr>), [a1, a2]))))"

text \<open>
  \<^verbatim>\<open>spsc_ring_is_empty\<close> and \<^verbatim>\<open>spsc_ring_is_full\<close>. Both dereference \<^verbatim>\<open>ring\<close> without a
  check. The C functions return the \<^verbatim>\<open>int\<close> value of \<^verbatim>\<open>==\<close>, which is 1 or 0: a \<open>bool\<close> here.
\<close>

definition spsc_ring_is_empty :: "heap \<Rightarrow> addr option \<Rightarrow> fault + (bool \<times> access list)" where
  "spsc_ring_is_empty s ring =
     (case load_ring s ring of
        Inl e \<Rightarrow> Inl e
      | Inr r \<Rightarrow>
          let (h, a1) = atomic_load_explicit r Head memory_order_relaxed;
              (t, a2) = atomic_load_explicit r Tail memory_order_acquire
          in Inr ((h AND mask_r r) = (t AND mask_r r), [a1, a2]))"

definition spsc_ring_is_full :: "heap \<Rightarrow> addr option \<Rightarrow> fault + (bool \<times> access list)" where
  "spsc_ring_is_full s ring =
     (case load_ring s ring of
        Inl e \<Rightarrow> Inl e
      | Inr r \<Rightarrow>
          let (h, a1) = atomic_load_explicit r Head memory_order_relaxed;
              (t, a2) = atomic_load_explicit r Tail memory_order_acquire
          in Inr (((t + 1) AND mask_r r) = (h AND mask_r r), [a1, a2]))"

text \<open>
  \<^verbatim>\<open>spsc_ring_push\<close>: the null check, the full check, then the relaxed load of \<^verbatim>\<open>tail\<close>,
  the slot write and the release store of \<^verbatim>\<open>tail\<close>. The result is the return code and
  the heap.
\<close>

definition spsc_ring_push ::
  "heap \<Rightarrow> addr option \<Rightarrow> c_int \<Rightarrow> fault + ((c_int \<times> heap) \<times> access list)" where
  "spsc_ring_push s ring fd =
     (case ring of
        None \<Rightarrow> Inr ((- 1, s), [])
      | Some a \<Rightarrow>
          (case spsc_ring_is_full s ring of
             Inl e \<Rightarrow> Inl e
           | Inr (is_full, ev) \<Rightarrow>
               if is_full then Inr ((- 1, s), ev)
               else
                 (case load_ring s ring of
                    Inl e \<Rightarrow> Inl e
                  | Inr r \<Rightarrow>
                      let (t, a1) = atomic_load_explicit r Tail memory_order_relaxed in
                      (case store_int s (buf r) (unat (t AND mask_r r)) fd of
                         Inl e \<Rightarrow> Inl e
                       | Inr s1 \<Rightarrow>
                           let (r', a2) = atomic_store_explicit r Tail (t + 1) memory_order_release
                           in Inr ((0, s1\<lparr>ring_mem := (ring_mem s1)(a \<mapsto> r')\<rparr>),
                                   ev @ [a1, a2])))))"

text \<open>
  \<^verbatim>\<open>spsc_ring_pop\<close>: there is no null check, the first access dereferences \<^verbatim>\<open>ring\<close>.
  The output location \<^verbatim>\<open>int *out_fd\<close> is \<open>None\<close> for \<^verbatim>\<open>NULL\<close> and
  \<open>Some v\<close> for a location of the caller that holds \<open>v\<close>; the result gives its contents
  after the call. The location is taken to lie outside the ring's own blocks.
\<close>

definition spsc_ring_pop ::
  "heap \<Rightarrow> addr option \<Rightarrow> c_int option \<Rightarrow>
     fault + ((c_int \<times> c_int option \<times> heap) \<times> access list)" where
  "spsc_ring_pop s ring out_fd =
     (case ring of
        None \<Rightarrow> Inl NullDeref
      | Some a \<Rightarrow>
          (case load_ring s ring of
             Inl e \<Rightarrow> Inl e
           | Inr r \<Rightarrow>
               let (h, a1) = atomic_load_explicit r Head memory_order_relaxed in
               (case spsc_ring_is_empty s ring of
                  Inl e \<Rightarrow> Inl e
                | Inr (is_empty, ev) \<Rightarrow>
                    if is_empty then Inr ((- 1, out_fd, s), a1 # ev)
                    else
                      (case (case out_fd of
                               None \<Rightarrow> Inr None
                             | Some _ \<Rightarrow>
                                 (case load_int s (buf r) (unat (h AND mask_r r)) of
                                    Inl e \<Rightarrow> Inl e
                                  | Inr v \<Rightarrow> Inr (Some v))) of
                         Inl e \<Rightarrow> Inl e
                       | Inr out' \<Rightarrow>
                           let (r', a2) =
                                 atomic_store_explicit r Head (h + 1) memory_order_release
                           in Inr ((0, out', s\<lparr>ring_mem := (ring_mem s)(a \<mapsto> r')\<rparr>),
                                   a1 # ev @ [a2])))))"

text \<open>
  \<^verbatim>\<open>spsc_ring_destroy\<close>. Its argument \<^verbatim>\<open>spsc_ring_t **ring\<close> is \<open>None\<close> for \<^verbatim>\<open>NULL\<close> and
  \<open>Some p\<close> for the caller's reference holding the pointer \<open>p\<close>; the result gives the
  reference after the call.
\<close>

definition spsc_ring_destroy ::
  "heap \<Rightarrow> addr option option \<Rightarrow> fault + (heap \<times> addr option option)" where
  "spsc_ring_destroy s ring =
     (case ring of
        None \<Rightarrow> Inr (s, None)
      | Some None \<Rightarrow> Inr (s, Some None)
      | Some (Some a) \<Rightarrow>
          (case load_ring s (Some a) of
             Inl e \<Rightarrow> Inl e
           | Inr r \<Rightarrow>
               (case free_int (buf r) s of
                  Inl e \<Rightarrow> Inl e
                | Inr s1 \<Rightarrow>
                    (case free_ring (Some a) s1 of
                       Inl e \<Rightarrow> Inl e
                     | Inr s2 \<Rightarrow> Inr (s2, Some None)))))"

section \<open>Sequential use\<close>

text \<open>
  A caller's operation on the ring: a push of a value, or a pop with its output
  location (\<open>None\<close>: no location, the value is discarded).
\<close>

datatype op = Push c_int | Pop "c_int option"

text \<open>
  \<open>run_ops\<close> applies a sequence of operations to the ring at \<open>ring\<close>, one call after the
  other. It returns the values of the pushes that returned 0, in order; for each pop
  that returned 0, the output location before and after the call, in order; and the
  final heap.
\<close>

fun run_ops ::
  "addr option \<Rightarrow> op list \<Rightarrow> heap \<Rightarrow>
     fault + (c_int list \<times> (c_int option \<times> c_int option) list \<times> heap)" where
  "run_ops ring [] s = Inr ([], [], s)"
| "run_ops ring (Push v # ops) s =
     (case result (spsc_ring_push s ring v) of
        Inl e \<Rightarrow> Inl e
      | Inr (rc, s1) \<Rightarrow>
          (case run_ops ring ops s1 of
             Inl e \<Rightarrow> Inl e
           | Inr (pushed, popped, s2) \<Rightarrow>
               Inr (if rc = 0 then v # pushed else pushed, popped, s2)))"
| "run_ops ring (Pop out_fd # ops) s =
     (case result (spsc_ring_pop s ring out_fd) of
        Inl e \<Rightarrow> Inl e
      | Inr (rc, out', s1) \<Rightarrow>
          (case run_ops ring ops s1 of
             Inl e \<Rightarrow> Inl e
           | Inr (pushed, popped, s2) \<Rightarrow>
               Inr (pushed, if rc = 0 then (out_fd, out') # popped else popped, s2)))"

text \<open>A heap with nothing allocated.\<close>

definition empty_heap :: heap where
  "empty_heap = \<lparr>ring_mem = Map.empty, int_mem = Map.empty, next_addr = 0\<rparr>"

section \<open>The representation invariant\<close>

text \<open>
  \<open>ring_inv s a k q\<close>: the block at \<open>a\<close> is a ring of capacity \<open>2 ^ k\<close> whose slot array is
  allocated with that length, and the values between the read and the write cursor
  are, in order, those of \<open>q\<close>. Fewer than \<open>2 ^ k\<close> values are queued.
\<close>

definition ring_inv :: "heap \<Rightarrow> addr \<Rightarrow> nat \<Rightarrow> c_int list \<Rightarrow> bool" where
  "ring_inv s a k q \<longleftrightarrow>
     (\<exists>r b xs. ring_mem s a = Some r \<and> buf r = Some b \<and> int_mem s b = Some xs \<and>
        k < 32 \<and> size_r r = 2 ^ k \<and> mask_r r = 2 ^ k - 1 \<and> length xs = 2 ^ k \<and>
        length q < 2 ^ k \<and> tail r = head r + of_nat (length q) \<and>
        (\<forall>i<length q. q ! i = xs ! ((unat (head r) + i) mod 2 ^ k)))"

section \<open>Auxiliary facts\<close>

subsection \<open>Cursor arithmetic\<close>

lemma unat_and_pow2_minus1:
  "unat ((x::32 word) AND (2 ^ k - 1)) = unat x mod 2 ^ k"
  by (simp add: mask_eq_exp_minus_1 [symmetric] take_bit_eq_mask [symmetric]
      unsigned_take_bit_eq take_bit_nat_def)

lemma slot_index:
  assumes "k < 32"
  shows "unat ((x + of_nat i :: 32 word) AND (2 ^ k - 1)) = (unat x + i) mod 2 ^ k"
proof -
  have dvd: "(2::nat) ^ k dvd 2 ^ 32"
    using assms by (intro le_imp_power_dvd) simp
  have "unat (x + of_nat i :: 32 word) = (unat x + i) mod 2 ^ 32"
    by (simp add: unat_word_ariths unat_of_nat mod_add_right_eq)
  then have "unat ((x + of_nat i :: 32 word) AND (2 ^ k - 1)) = (unat x + i) mod 2 ^ 32 mod 2 ^ k"
    by (simp only: unat_and_pow2_minus1)
  also have "\<dots> = (unat x + i) mod 2 ^ k"
    using dvd by (rule mod_mod_cancel)
  finally show ?thesis .
qed

lemma mod_add_same_iff: "(H + x) mod N = H mod N \<longleftrightarrow> x mod N = (0::nat)"
  using mod_eq_dvd_iff_nat [of H "H + x" N] by force

lemma slots_distinct:
  assumes "i < n" "n < (N::nat)"
  shows "(H + i) mod N \<noteq> (H + n) mod N"
proof
  assume "(H + i) mod N = (H + n) mod N"
  then have "((H + i) + (n - i)) mod N = (H + i) mod N"
    using assms by simp
  then have "(n - i) mod N = 0"
    by (simp only: mod_add_same_iff)
  moreover have "(n - i) mod N = n - i"
    using assms by simp
  ultimately show False
    using assms by simp
qed

lemma masked_eq_iff:
  assumes "k < 32"
  shows "((x + of_nat i :: 32 word) AND (2 ^ k - 1)) = (x AND (2 ^ k - 1)) \<longleftrightarrow> i mod 2 ^ k = 0"
proof -
  have "((x + of_nat i :: 32 word) AND (2 ^ k - 1)) = (x AND (2 ^ k - 1)) \<longleftrightarrow>
        unat ((x + of_nat i :: 32 word) AND (2 ^ k - 1)) = unat (x AND (2 ^ k - 1))"
    by (simp add: word_unat_eq_iff)
  also have "\<dots> \<longleftrightarrow> (unat x + i) mod 2 ^ k = unat x mod 2 ^ k"
    unfolding slot_index [OF assms] unat_and_pow2_minus1 [of x] ..
  also have "\<dots> \<longleftrightarrow> i mod 2 ^ k = 0"
    by (rule mod_add_same_iff)
  finally show ?thesis .
qed

lemma full_iff:
  assumes "k < 32" "n < 2 ^ k"
  shows "(((h + of_nat n + 1 :: 32 word) AND (2 ^ k - 1)) = (h AND (2 ^ k - 1))) \<longleftrightarrow> Suc n = 2 ^ k"
proof -
  have "h + of_nat n + 1 = h + of_nat (Suc n)" by simp
  then have "(((h + of_nat n + 1 :: 32 word) AND (2 ^ k - 1)) = (h AND (2 ^ k - 1))) \<longleftrightarrow>
      Suc n mod 2 ^ k = 0"
    by (simp only: masked_eq_iff [OF assms(1)])
  also have "\<dots> \<longleftrightarrow> Suc n = 2 ^ k"
  proof (cases "Suc n = 2 ^ k")
    case True then show ?thesis by simp
  next
    case False
    with assms(2) have "Suc n < 2 ^ k" by simp
    then have "Suc n mod 2 ^ k = Suc n" by (rule mod_less)
    with False show ?thesis by simp
  qed
  finally show ?thesis .
qed

lemma empty_iff:
  assumes "k < 32" "n < 2 ^ k"
  shows "((h AND (2 ^ k - 1)) = ((h + of_nat n :: 32 word) AND (2 ^ k - 1))) \<longleftrightarrow> n = 0"
proof -
  have "((h AND (2 ^ k - 1)) = ((h + of_nat n :: 32 word) AND (2 ^ k - 1))) \<longleftrightarrow>
        (((h + of_nat n :: 32 word) AND (2 ^ k - 1)) = (h AND (2 ^ k - 1)))"
    by (rule eq_commute)
  also have "\<dots> \<longleftrightarrow> n mod 2 ^ k = 0"
    by (rule masked_eq_iff [OF assms(1)])
  also have "\<dots> \<longleftrightarrow> n = 0"
    using assms(2) by simp
  finally show ?thesis .
qed

subsection \<open>The operations on an allocated ring\<close>

lemma is_full_alloc:
  assumes "ring_mem s a = Some r"
  shows "spsc_ring_is_full s (Some a) =
           Inr (((tail r + 1) AND mask_r r) = (head r AND mask_r r),
                [Load Head memory_order_relaxed, Load Tail memory_order_acquire])"
  using assms by (simp add: spsc_ring_is_full_def load_ring_def atomic_load_explicit_def)

lemma is_empty_alloc:
  assumes "ring_mem s a = Some r"
  shows "spsc_ring_is_empty s (Some a) =
           Inr ((head r AND mask_r r) = (tail r AND mask_r r),
                [Load Head memory_order_relaxed, Load Tail memory_order_acquire])"
  using assms by (simp add: spsc_ring_is_empty_def load_ring_def atomic_load_explicit_def)

lemma push_full:
  assumes "ring_mem s a = Some r" "((tail r + 1) AND mask_r r) = (head r AND mask_r r)"
  shows "result (spsc_ring_push s (Some a) v) = Inr (- 1, s)"
  using assms by (simp add: spsc_ring_push_def is_full_alloc result_def)

lemma push_not_full:
  assumes "ring_mem s a = Some r" "((tail r + 1) AND mask_r r) \<noteq> (head r AND mask_r r)"
    and "buf r = Some b" "int_mem s b = Some xs" "unat (tail r AND mask_r r) < length xs"
  shows "result (spsc_ring_push s (Some a) v) =
           Inr (0, s\<lparr>int_mem := (int_mem s)(b \<mapsto> xs[unat (tail r AND mask_r r) := v]),
                     ring_mem := (ring_mem s)(a \<mapsto> r\<lparr>tail := tail r + 1\<rparr>)\<rparr>)"
  using assms
  by (simp add: spsc_ring_push_def is_full_alloc result_def load_ring_def store_int_def
      atomic_load_explicit_def atomic_store_explicit_def)

lemma pop_empty:
  assumes "ring_mem s a = Some r" "(head r AND mask_r r) = (tail r AND mask_r r)"
  shows "result (spsc_ring_pop s (Some a) out) = Inr (- 1, out, s)"
  using assms
  by (simp add: spsc_ring_pop_def is_empty_alloc result_def load_ring_def atomic_load_explicit_def)

lemma pop_not_empty:
  assumes "ring_mem s a = Some r" "(head r AND mask_r r) \<noteq> (tail r AND mask_r r)"
    and "buf r = Some b" "int_mem s b = Some xs" "unat (head r AND mask_r r) < length xs"
  shows "result (spsc_ring_pop s (Some a) out) =
           Inr (0, map_option (\<lambda>_. xs ! unat (head r AND mask_r r)) out,
                s\<lparr>ring_mem := (ring_mem s)(a \<mapsto> r\<lparr>head := head r + 1\<rparr>)\<rparr>)"
  using assms
  by (cases out)
    (simp_all add: spsc_ring_pop_def is_empty_alloc result_def load_ring_def load_int_def
      atomic_load_explicit_def atomic_store_explicit_def)


subsection \<open>The invariant through the operations\<close>

lemma inv_is_full:
  assumes "ring_inv s a k q"
  shows "result (spsc_ring_is_full s (Some a)) = Inr (Suc (length q) = 2 ^ k)"
proof -
  from assms obtain r where r: "ring_mem s a = Some r" "k < 32" "mask_r r = 2 ^ k - 1"
    "length q < 2 ^ k" "tail r = head r + of_nat (length q)"
    by (auto simp: ring_inv_def)
  show ?thesis
    using full_iff [OF r(2) r(4), of "head r"] r
    by (simp add: is_full_alloc [OF r(1)] result_def)
qed

lemma inv_is_empty:
  assumes "ring_inv s a k q"
  shows "result (spsc_ring_is_empty s (Some a)) = Inr (q = [])"
proof -
  from assms obtain r where r: "ring_mem s a = Some r" "k < 32" "mask_r r = 2 ^ k - 1"
    "length q < 2 ^ k" "tail r = head r + of_nat (length q)"
    by (auto simp: ring_inv_def)
  show ?thesis
    using empty_iff [OF r(2) r(4), of "head r"] r
    by (simp add: is_empty_alloc [OF r(1)] result_def)
qed

lemma inv_push_full:
  assumes "ring_inv s a k q" "Suc (length q) = 2 ^ k"
  shows "result (spsc_ring_push s (Some a) v) = Inr (- 1, s)"
proof -
  from assms obtain r where r: "ring_mem s a = Some r" "k < 32" "mask_r r = 2 ^ k - 1"
    "length q < 2 ^ k" "tail r = head r + of_nat (length q)"
    by (auto simp: ring_inv_def)
  have "((tail r + 1) AND mask_r r) = (head r AND mask_r r)"
    using full_iff [OF r(2) r(4), of "head r"] r assms(2) by simp
  then show ?thesis by (rule push_full [OF r(1)])
qed

lemma inv_pop_empty:
  assumes "ring_inv s a k []"
  shows "result (spsc_ring_pop s (Some a) out) = Inr (- 1, out, s)"
proof -
  from assms obtain r where r: "ring_mem s a = Some r" "tail r = head r"
    by (auto simp: ring_inv_def)
  then show ?thesis by (simp add: pop_empty [OF r(1)])
qed

lemma inv_push:
  assumes "ring_inv s a k q" "Suc (length q) \<noteq> 2 ^ k"
  shows "\<exists>s'. result (spsc_ring_push s (Some a) v) = Inr (0, s') \<and> ring_inv s' a k (q @ [v])"
proof -
  from assms obtain r b xs where r: "ring_mem s a = Some r" "k < 32" "mask_r r = 2 ^ k - 1"
    "length q < 2 ^ k" "tail r = head r + of_nat (length q)"
    and b: "buf r = Some b" "int_mem s b = Some xs" "length xs = 2 ^ k" "size_r r = 2 ^ k"
    and q: "\<forall>i<length q. q ! i = xs ! ((unat (head r) + i) mod 2 ^ k)"
    by (auto simp: ring_inv_def)
  let ?j = "(unat (head r) + length q) mod 2 ^ k"
  have idx: "unat (tail r AND mask_r r) = ?j"
    using slot_index [OF r(2), of "head r" "length q"] r by simp
  have lt: "unat (tail r AND mask_r r) < length xs"
    unfolding idx b(3) by simp
  have nf: "((tail r + 1) AND mask_r r) \<noteq> (head r AND mask_r r)"
    using full_iff [OF r(2) r(4), of "head r"] r assms(2) by simp
  let ?s' = "s\<lparr>int_mem := (int_mem s)(b \<mapsto> xs[unat (tail r AND mask_r r) := v]),
               ring_mem := (ring_mem s)(a \<mapsto> r\<lparr>tail := tail r + 1\<rparr>)\<rparr>"
  have res: "result (spsc_ring_push s (Some a) v) = Inr (0, ?s')"
    by (rule push_not_full [OF r(1) nf b(1) b(2) lt])
  have len: "Suc (length q) < 2 ^ k"
    using r(4) assms(2) by simp
  have cont: "\<forall>i<length (q @ [v]). (q @ [v]) ! i = (xs[?j := v]) ! ((unat (head r) + i) mod 2 ^ k)"
  proof (intro allI impI)
    fix i assume "i < length (q @ [v])"
    then consider "i < length q" | "i = length q" by fastforce
    then show "(q @ [v]) ! i = (xs[?j := v]) ! ((unat (head r) + i) mod 2 ^ k)"
    proof cases
      case 1
      have "(unat (head r) + i) mod 2 ^ k \<noteq> ?j"
        by (rule slots_distinct [OF 1 r(4)])
      then show ?thesis using 1 q by (simp add: nth_append)
    next
      case 2
      then show ?thesis using b(3) by (simp add: nth_append)
    qed
  qed
  have "ring_inv ?s' a k (q @ [v])"
    unfolding ring_inv_def
    apply (rule exI [of _ "r\<lparr>tail := tail r + 1\<rparr>"])
    apply (rule exI [of _ b])
    apply (rule exI [of _ "xs[?j := v]"])
    using r b len cont idx by simp
  with res show ?thesis by blast
qed

lemma inv_pop:
  assumes "ring_inv s a k (x # q)"
  shows "\<exists>s'. result (spsc_ring_pop s (Some a) out) = Inr (0, map_option (\<lambda>_. x) out, s') \<and>
           ring_inv s' a k q"
proof -
  from assms obtain r b xs where r: "ring_mem s a = Some r" "k < 32" "mask_r r = 2 ^ k - 1"
    "Suc (length q) < 2 ^ k" "tail r = head r + of_nat (Suc (length q))"
    and b: "buf r = Some b" "int_mem s b = Some xs" "length xs = 2 ^ k" "size_r r = 2 ^ k"
    and q: "\<forall>i<Suc (length q). (x # q) ! i = xs ! ((unat (head r) + i) mod 2 ^ k)"
    by (auto simp: ring_inv_def)
  have idx: "unat (head r AND mask_r r) = unat (head r) mod 2 ^ k"
    using r(3) by (simp add: unat_and_pow2_minus1)
  have lt: "unat (head r AND mask_r r) < length xs"
    unfolding idx b(3) by simp
  have ne: "(head r AND mask_r r) \<noteq> (tail r AND mask_r r)"
    using empty_iff [OF r(2) r(4), of "head r"] r(3) r(5) by simp
  have x: "xs ! unat (head r AND mask_r r) = x"
    using q [rule_format, of 0] idx by simp
  let ?s' = "s\<lparr>ring_mem := (ring_mem s)(a \<mapsto> r\<lparr>head := head r + 1\<rparr>)\<rparr>"
  have res: "result (spsc_ring_pop s (Some a) out) = Inr (0, map_option (\<lambda>_. x) out, ?s')"
    using pop_not_empty [OF r(1) ne b(1) b(2) lt, of out] x by simp
  have hd1: "unat (head r + 1) mod 2 ^ k = (unat (head r) + 1) mod 2 ^ k"
    using slot_index [OF r(2), of "head r" 1] by (simp add: unat_and_pow2_minus1)
  have cont: "\<forall>i<length q. q ! i = xs ! ((unat (head r + 1) + i) mod 2 ^ k)"
  proof (intro allI impI)
    fix i assume i: "i < length q"
    have "(unat (head r + 1) + i) mod 2 ^ k = (unat (head r + 1) mod 2 ^ k + i) mod 2 ^ k"
      by (simp add: mod_add_left_eq)
    also have "\<dots> = (unat (head r) + Suc i) mod 2 ^ k"
      unfolding hd1 by (simp add: mod_add_left_eq)
    finally show "q ! i = xs ! ((unat (head r + 1) + i) mod 2 ^ k)"
      using q [rule_format, of "Suc i"] i by simp
  qed
  have "ring_inv ?s' a k q"
    unfolding ring_inv_def
    apply (rule exI [of _ "r\<lparr>head := head r + 1\<rparr>"])
    apply (rule exI [of _ b])
    apply (rule exI [of _ xs])
    using r b cont by simp
  with res show ?thesis by blast
qed

subsection \<open>Powers of two\<close>

lemma and_even_odd_nat: "(2 * m) AND (2 * l + 1) = 2 * (m AND (l :: nat))"
  by (subst and_rec) simp

lemma and_odd_even_nat: "(2 * m + 1) AND (2 * m) = 2 * (m::nat)"
  by (subst and_rec) simp

lemma nat_and_pred_zero:
  "0 < (n::nat) \<Longrightarrow> n AND (n - 1) = 0 \<Longrightarrow> \<exists>k. n = 2 ^ k"
proof (induction n rule: less_induct)
  case (less n)
  show ?case
  proof (cases "even n")
    case True
    then obtain m where m: "n = 2 * m" by (auto elim: evenE)
    with less.prems have m0: "0 < m" by simp
    have "n - 1 = 2 * (m - 1) + 1" using m m0 by simp
    then have "n AND (n - 1) = 2 * (m AND (m - 1))"
      using m and_even_odd_nat [of m "m - 1"] by simp
    with less.prems have "m AND (m - 1) = 0" by simp
    with less.IH [of m] m m0 obtain k where "m = 2 ^ k" by auto
    then have "n = 2 ^ Suc k" using m by simp
    then show ?thesis by blast
  next
    case False
    then obtain m where m: "n = 2 * m + 1" by (auto elim: oddE)
    then have "n AND (n - 1) = 2 * m"
      using and_odd_even_nat [of m] by simp
    with less.prems have "m = 0" by simp
    then have "n = 2 ^ 0" using m by simp
    then show ?thesis by blast
  qed
qed

lemma unat_pow2_exp: "unat (c::32 word) = 2 ^ k \<Longrightarrow> k < 32"
proof -
  assume k: "unat c = 2 ^ k"
  have "unat c < 2 ^ LENGTH(32)" by (rule unsigned_less)
  with k have "(2::nat) ^ k < 2 ^ LENGTH(32)" by simp
  then have "k < LENGTH(32)"
    by (simp only: power_strict_increasing_iff one_less_numeral_iff semiring_norm)
  then show ?thesis by simp
qed

lemma unat_pow2_word: "unat (c::32 word) = 2 ^ k \<Longrightarrow> c = 2 ^ k"
proof -
  assume k: "unat c = 2 ^ k"
  have "c = of_nat (unat c)" by simp
  also have "\<dots> = of_nat (2 ^ k)" by (simp only: k)
  also have "\<dots> = 2 ^ k" by simp
  finally show ?thesis .
qed

lemma pow2_check_imp:
  assumes "(c::32 word) \<noteq> 0" "c AND (c - 1) = 0"
  shows "\<exists>k. unat c = 2 ^ k"
proof -
  have pos: "0 < unat c" using assms(1) by (simp add: unat_gt_0)
  have "unat (c - 1) = unat c - 1" using assms(1) by (simp add: unat_minus_one)
  then have "unat c AND (unat c - 1) = unat (c AND (c - 1))"
    by (simp add: unsigned_and_eq)
  also have "\<dots> = 0" using assms(2) by simp
  finally show ?thesis using nat_and_pred_zero [OF pos] by blast
qed

lemma pow2_imp_check:
  assumes "unat (c::32 word) = 2 ^ k"
  shows "c \<noteq> 0 \<and> c AND (c - 1) = 0"
proof -
  have k: "k < 32" using assms by (rule unat_pow2_exp)
  have c: "c = 2 ^ k" using assms by (rule unat_pow2_word)
  have "(2 ^ k :: 32 word) \<noteq> 0" using k by simp
  moreover have "(2 ^ k :: 32 word) AND (2 ^ k - 1) = 0"
    by (simp add: mask_eq_exp_minus_1 [symmetric] take_bit_eq_mask [symmetric] take_bit_eq_0_iff)
  ultimately show ?thesis using c by simp
qed

lemma pow2_check_iff:
  "(c::32 word) \<noteq> 0 \<and> c AND (c - 1) = 0 \<longleftrightarrow> (\<exists>k. unat c = 2 ^ k)"
  using pow2_check_imp pow2_imp_check by blast

subsection \<open>Construction\<close>

lemma init_result:
  "result (spsc_ring_init c ok1 ok2 s) =
     (if c = 0 \<or> c AND (c - 1) \<noteq> 0 \<or> \<not> ok1 then Inr (None, s)
      else if \<not> ok2 then
        Inr (None, s\<lparr>ring_mem := (ring_mem s)(next_addr s := None),
                     next_addr := Suc (next_addr s)\<rparr>)
      else
        Inr (Some (next_addr s),
             s\<lparr>ring_mem := (ring_mem s)(next_addr s \<mapsto>
                   \<lparr>buf = Some (Suc (next_addr s)), size_r = c, mask_r = c - 1,
                    head = 0, tail = 0\<rparr>),
               int_mem := (int_mem s)(Suc (next_addr s) \<mapsto> replicate (unat c) 0),
               next_addr := Suc (Suc (next_addr s))\<rparr>))"
  by (simp add: spsc_ring_init_def result_def calloc_ring_def calloc_int_def load_ring_def
      free_ring_def zero_ring_def atomic_store_explicit_def Let_def)

lemma init_inv:
  assumes "result (spsc_ring_init c ok1 ok2 s0) = Inr (Some a, s)"
  shows "\<exists>k. unat c = 2 ^ k \<and> ring_inv s a k []"
proof -
  from assms have chk: "c \<noteq> 0" "c AND (c - 1) = 0" and ok: "ok1" "ok2"
    by (auto simp: init_result split: if_splits)
  from chk obtain k where k: "unat c = 2 ^ k"
    using pow2_check_imp by blast
  have k32: "k < 32" using k by (rule unat_pow2_exp)
  have c: "c = 2 ^ k" using k by (rule unat_pow2_word)
  have "ring_inv s a k []"
    using assms chk ok k k32 c
    by (auto simp: init_result ring_inv_def)
  with k show ?thesis by blast
qed

subsection \<open>Sequences of operations\<close>

lemma run_ops_append:
  "run_ops p (xs @ ys) s =
     (case run_ops p xs s of
        Inl e \<Rightarrow> Inl e
      | Inr (ps, qs, s1) \<Rightarrow>
          (case run_ops p ys s1 of
             Inl e \<Rightarrow> Inl e
           | Inr (ps', qs', s2) \<Rightarrow> Inr (ps @ ps', qs @ qs', s2)))"
proof (induction xs arbitrary: s)
  case Nil
  show ?case by (simp split: sum.splits)
next
  case (Cons x xs)
  show ?case
    by (cases x) (simp_all add: Cons.IH split: sum.splits prod.splits)
qed

lemma run_ops_inv:
  assumes "ring_inv s a k q"
  shows "\<exists>pushed popped s' q' cs.
           run_ops (Some a) ops s = Inr (pushed, popped, s') \<and> ring_inv s' a k q' \<and>
           q @ pushed = cs @ q' \<and> length cs = length popped \<and>
           (\<forall>i<length popped. snd (popped ! i) = map_option (\<lambda>_. cs ! i) (fst (popped ! i)))"
  using assms
proof (induction ops arbitrary: s q)
  case Nil
  then show ?case by simp
next
  case (Cons x ops)
  show ?case
  proof (cases x)
    case (Push v)
    show ?thesis
    proof (cases "Suc (length q) = 2 ^ k")
      case True
      have res: "result (spsc_ring_push s (Some a) v) = Inr (- 1, s)"
        by (rule inv_push_full [OF Cons.prems True])
      from Cons.IH [OF Cons.prems] obtain pushed popped s' q' cs where
        "run_ops (Some a) ops s = Inr (pushed, popped, s')" "ring_inv s' a k q'"
        "q @ pushed = cs @ q'" "length cs = length popped"
        "\<forall>i<length popped. snd (popped ! i) = map_option (\<lambda>_. cs ! i) (fst (popped ! i))"
        by blast
      then show ?thesis using Push res by auto
    next
      case False
      from inv_push [OF Cons.prems False, of v] obtain s1 where
        res: "result (spsc_ring_push s (Some a) v) = Inr (0, s1)" and inv1: "ring_inv s1 a k (q @ [v])"
        by blast
      from Cons.IH [OF inv1] obtain pushed popped s' q' cs where
        "run_ops (Some a) ops s1 = Inr (pushed, popped, s')" "ring_inv s' a k q'"
        "(q @ [v]) @ pushed = cs @ q'" "length cs = length popped"
        "\<forall>i<length popped. snd (popped ! i) = map_option (\<lambda>_. cs ! i) (fst (popped ! i))"
        by blast
      then show ?thesis using Push res by auto
    qed
  next
    case (Pop out)
    show ?thesis
    proof (cases q)
      case Nil
      have res: "result (spsc_ring_pop s (Some a) out) = Inr (- 1, out, s)"
        using Cons.prems Nil by (simp add: inv_pop_empty)
      from Cons.IH [OF Cons.prems] obtain pushed popped s' q' cs where
        "run_ops (Some a) ops s = Inr (pushed, popped, s')" "ring_inv s' a k q'"
        "q @ pushed = cs @ q'" "length cs = length popped"
        "\<forall>i<length popped. snd (popped ! i) = map_option (\<lambda>_. cs ! i) (fst (popped ! i))"
        by blast
      then show ?thesis using Pop res by auto
    next
      case (Cons y q0)
      from inv_pop [of s a k y q0 out] Cons.prems Cons obtain s1 where
        res: "result (spsc_ring_pop s (Some a) out) = Inr (0, map_option (\<lambda>_. y) out, s1)"
        and inv1: "ring_inv s1 a k q0"
        by blast
      from Cons.IH [OF inv1] obtain pushed popped s' q' cs where run:
        "run_ops (Some a) ops s1 = Inr (pushed, popped, s')" "ring_inv s' a k q'"
        "q0 @ pushed = cs @ q'" "length cs = length popped"
        and nth: "\<forall>i<length popped. snd (popped ! i) = map_option (\<lambda>_. cs ! i) (fst (popped ! i))"
        by blast
      let ?popped = "(out, map_option (\<lambda>_. y) out) # popped"
      have "\<forall>i<length ?popped. snd (?popped ! i) = map_option (\<lambda>_. (y # cs) ! i) (fst (?popped ! i))"
        using nth by (auto simp: nth_Cons split: nat.splits)
      moreover have "run_ops (Some a) (x # ops) s = Inr (pushed, ?popped, s')"
        using Pop res run(1) by simp
      moreover have "q @ pushed = (y # cs) @ q'" "length (y # cs) = length ?popped"
        using run(3,4) Cons by simp_all
      ultimately show ?thesis using run(2) by blast
    qed
  qed
qed

lemma run_pushes:
  assumes "ring_inv s a k q" "length q + length vs < 2 ^ k"
  shows "\<exists>s'. run_ops (Some a) (map Push vs) s = Inr (vs, [], s') \<and> ring_inv s' a k (q @ vs)"
  using assms
proof (induction vs arbitrary: s q)
  case Nil
  then show ?case by simp
next
  case (Cons v vs)
  have "Suc (length q) \<noteq> 2 ^ k" using Cons.prems(2) by simp
  from inv_push [OF Cons.prems(1) this, of v] obtain s1 where
    res: "result (spsc_ring_push s (Some a) v) = Inr (0, s1)" and inv1: "ring_inv s1 a k (q @ [v])"
    by blast
  have "length (q @ [v]) + length vs < 2 ^ k" using Cons.prems(2) by simp
  from Cons.IH [OF inv1 this] res show ?case by auto
qed

lemma run_pops:
  assumes "ring_inv s a k q"
  shows "\<exists>s'. run_ops (Some a) (replicate (length q) (Pop out)) s =
                 Inr ([], map (\<lambda>v. (out, map_option (\<lambda>_. v) out)) q, s') \<and>
               ring_inv s' a k []"
  using assms
proof (induction q arbitrary: s)
  case Nil
  then show ?case by simp
next
  case (Cons y q)
  from inv_pop [OF Cons.prems, of out] obtain s1 where
    res: "result (spsc_ring_pop s (Some a) out) = Inr (0, map_option (\<lambda>_. y) out, s1)"
    and inv1: "ring_inv s1 a k q"
    by blast
  from Cons.IH [OF inv1] res show ?case by auto
qed

subsection \<open>Further consequences of the invariant\<close>

lemma inv_cursor_bound:
  assumes "ring_inv s a k q" "unat (c::32 word) = 2 ^ k"
  shows "\<exists>r. ring_mem s a = Some r \<and> unat (tail r - head r) \<le> unat c - 1"
proof -
  from assms(1) obtain r where r: "ring_mem s a = Some r" "k < 32" "length q < 2 ^ k"
    "tail r = head r + of_nat (length q)"
    by (auto simp: ring_inv_def)
  have "(2::nat) ^ k \<le> 2 ^ 31"
    using r(2) by (intro power_increasing) simp_all
  with r(3) have "length q < 2 ^ 32" by simp
  then have "unat (of_nat (length q) :: 32 word) = length q"
    by (simp add: unat_of_nat)
  moreover have "tail r - head r = of_nat (length q)"
    using r(4) by simp
  ultimately have "unat (tail r - head r) = length q" by simp
  with r(1,3) assms(2) show ?thesis by simp
qed


lemma run_ops_capacity_one:
  assumes "ring_inv s a 0 []"
  shows "run_ops (Some a) ops s = Inr ([], [], s)"
proof (induction ops)
  case Nil
  show ?case by simp
next
  case (Cons x ops)
  have "result (spsc_ring_push s (Some a) v) = Inr (- 1, s)" for v
    using inv_push_full [OF assms] by simp
  moreover have "result (spsc_ring_pop s (Some a) out) = Inr (- 1, out, s)" for out
    by (rule inv_pop_empty [OF assms])
  ultimately show ?case using Cons.IH by (cases x) simp_all
qed

text \<open>The definitions unfolded when an operation is evaluated on a concrete heap.\<close>

lemmas eval_defs =
  result_def spsc_ring_push_def spsc_ring_pop_def spsc_ring_is_full_def spsc_ring_is_empty_def
  load_ring_def load_int_def store_int_def atomic_load_explicit_def atomic_store_explicit_def

section \<open>The claims\<close>

text \<open>
  Claim C1. On a ring just returned by \<^verbatim>\<open>spsc_ring_init\<close>, every sequence of pushes and pops
  runs without a fault, and the \<open>i\<close>-th pop that returns 0 hands back the value of the \<open>i\<close>-th
  push that returned 0: if it was given an output location, the location then holds that
  value. There are never more successful pops than successful pushes, and fewer values
  than the capacity are outstanding. No accepted value is lost: from the state reached,
  any further values \<open>ws\<close> that fit are all accepted, and popping as often as values are
  outstanding hands back exactly the accepted values not yet popped, followed by \<open>ws\<close>, in
  order, and leaves the ring empty. With no further values this drains the ring; after
  a drain it is a refill, at any position of the wrapping 32-bit cursors. In particular,
  pushing \<open>vs\<close> with fewer values than the capacity onto the fresh ring and then popping
  as many times gives back \<open>vs\<close>, in order.
\<close>

theorem fifo_order:
  assumes "result (spsc_ring_init capacity ok1 ok2 s0) = Inr (Some a, s)"
  shows "(\<exists>pushed popped s'.
            run_ops (Some a) ops s = Inr (pushed, popped, s') \<and>
            length popped \<le> length pushed \<and>
            (\<forall>i<length popped.
               snd (popped ! i) = map_option (\<lambda>_. pushed ! i) (fst (popped ! i))) \<and>
            length pushed - length popped < unat capacity \<and>
            (length pushed - length popped + length ws < unat capacity \<longrightarrow>
               (\<exists>s''. run_ops (Some a)
                        (map Push ws @
                         replicate (length pushed - length popped + length ws) (Pop out)) s' =
                        Inr (ws,
                             map (\<lambda>v. (out, map_option (\<lambda>_. v) out))
                               (drop (length popped) pushed @ ws),
                             s'') \<and>
                      result (spsc_ring_is_empty s'' (Some a)) = Inr True))) \<and>
         (length vs < unat capacity \<longrightarrow>
            (\<exists>s'. run_ops (Some a) (map Push vs @ replicate (length vs) (Pop (Some d))) s =
                    Inr (vs, map (\<lambda>v. (Some d, Some v)) vs, s')))"
proof -
  from init_inv [OF assms] obtain k where k: "unat capacity = 2 ^ k" and inv: "ring_inv s a k []"
    by blast
  from run_ops_inv [OF inv, of ops] obtain pushed popped s' q' cs where
    run: "run_ops (Some a) ops s = Inr (pushed, popped, s')"
    and inv': "ring_inv s' a k q'"
    and cs: "[] @ pushed = cs @ q'" "length cs = length popped"
    and nth: "\<forall>i<length popped. snd (popped ! i) = map_option (\<lambda>_. cs ! i) (fst (popped ! i))"
    by blast
  have pushed: "pushed = cs @ q'"
    using cs(1) by simp
  have len: "length popped \<le> length pushed"
    using pushed cs(2) by simp
  have q': "q' = drop (length popped) pushed"
    using pushed cs(2) by simp
  have lq: "length q' = length pushed - length popped"
    using pushed cs(2) by simp
  have "\<forall>i<length popped. cs ! i = pushed ! i"
    using pushed cs(2) by (simp add: nth_append)
  with nth have prefix: "\<forall>i<length popped.
      snd (popped ! i) = map_option (\<lambda>_. pushed ! i) (fst (popped ! i))"
    by simp
  have "length q' < 2 ^ k"
    using inv' by (auto simp: ring_inv_def)
  then have bound: "length pushed - length popped < unat capacity"
    using lq k by simp
  have refill: "\<exists>s''. run_ops (Some a)
                        (map Push ws @
                         replicate (length pushed - length popped + length ws) (Pop out)) s' =
                        Inr (ws,
                             map (\<lambda>v. (out, map_option (\<lambda>_. v) out))
                               (drop (length popped) pushed @ ws),
                             s'') \<and>
                      result (spsc_ring_is_empty s'' (Some a)) = Inr True"
    if "length pushed - length popped + length ws < unat capacity"
  proof -
    from that lq k have "length q' + length ws < 2 ^ k" by simp
    from run_pushes [OF inv' this] obtain s1 where
      r1: "run_ops (Some a) (map Push ws) s' = Inr (ws, [], s1)"
      and inv1: "ring_inv s1 a k (q' @ ws)"
      by auto
    from run_pops [OF inv1, of out] obtain s2 where
      r2: "run_ops (Some a) (replicate (length (q' @ ws)) (Pop out)) s1 =
             Inr ([], map (\<lambda>v. (out, map_option (\<lambda>_. v) out)) (q' @ ws), s2)"
      and inv2: "ring_inv s2 a k []"
      by auto
    have e: "result (spsc_ring_is_empty s2 (Some a)) = Inr True"
      using inv_is_empty [OF inv2] by simp
    have "length (q' @ ws) = length pushed - length popped + length ws"
      using lq by simp
    with r1 r2 have "run_ops (Some a)
        (map Push ws @ replicate (length pushed - length popped + length ws) (Pop out)) s' =
        Inr (ws, map (\<lambda>v. (out, map_option (\<lambda>_. v) out)) (q' @ ws), s2)"
      by (simp add: run_ops_append)
    with e q' show ?thesis by auto
  qed
  from run len prefix bound refill have first: "\<exists>pushed popped s'.
            run_ops (Some a) ops s = Inr (pushed, popped, s') \<and>
            length popped \<le> length pushed \<and>
            (\<forall>i<length popped.
               snd (popped ! i) = map_option (\<lambda>_. pushed ! i) (fst (popped ! i))) \<and>
            length pushed - length popped < unat capacity \<and>
            (length pushed - length popped + length ws < unat capacity \<longrightarrow>
               (\<exists>s''. run_ops (Some a)
                        (map Push ws @
                         replicate (length pushed - length popped + length ws) (Pop out)) s' =
                        Inr (ws,
                             map (\<lambda>v. (out, map_option (\<lambda>_. v) out))
                               (drop (length popped) pushed @ ws),
                             s'') \<and>
                      result (spsc_ring_is_empty s'' (Some a)) = Inr True))"
    by blast
  have second: "\<exists>s'. run_ops (Some a) (map Push vs @ replicate (length vs) (Pop (Some d))) s =
                    Inr (vs, map (\<lambda>v. (Some d, Some v)) vs, s')"
    if "length vs < unat capacity"
  proof -
    from that k have "length ([]::c_int list) + length vs < 2 ^ k" by simp
    from run_pushes [OF inv this] obtain s1 where
      r1: "run_ops (Some a) (map Push vs) s = Inr (vs, [], s1)" and inv1: "ring_inv s1 a k vs"
      by auto
    from run_pops [OF inv1, of "Some d"] obtain s2 where
      "run_ops (Some a) (replicate (length vs) (Pop (Some d))) s1 =
         Inr ([], map (\<lambda>v. (Some d, Some v)) vs, s2)"
      by auto
    with r1 show ?thesis by (simp add: run_ops_append)
  qed
  from first second show ?thesis by blast
qed

theorem fifo_order_witness:
  "\<exists>s s'. result (spsc_ring_init 4 True True empty_heap) = Inr (Some 0, s) \<and>
       run_ops (Some 0) [Push 11, Push 22, Push 33, Push 99, Pop (Some 0), Push 44, Pop None] s =
         Inr ([11, 22, 33, 44], [(Some 0, Some 11), (None, None)], s') \<and>
       (\<exists>s''. run_ops (Some 0) (map Push [55] @ replicate 3 (Pop (Some 0))) s' =
                Inr ([55], [(Some 0, Some 33), (Some 0, Some 44), (Some 0, Some 55)], s'') \<and>
              result (spsc_ring_is_empty s'' (Some 0)) = Inr True) \<and>
       length [11, 22, 33 :: c_int] < unat (4 :: u32) \<and>
       (\<exists>s'. run_ops (Some 0)
               (map Push [11, 22, 33] @ replicate (length [11, 22, 33 :: c_int]) (Pop (Some 0))) s =
               Inr ([11, 22, 33], map (\<lambda>v. (Some 0, Some v)) [11, 22, 33], s'))"
proof -
  let ?s = "\<lparr>ring_mem = [0 \<mapsto> \<lparr>buf = Some 1, size_r = 4, mask_r = 3, head = 0, tail = 0\<rparr>],
             int_mem = [1 \<mapsto> [0, 0, 0, 0]], next_addr = 2\<rparr>"
  let ?ops = "[Push 11, Push 22, Push 33, Push 99, Pop (Some 0), Push 44, Pop None]"
  have rep: "replicate 4 (0 :: c_int) = [0, 0, 0, 0]"
    by (simp add: numeral_eq_Suc)
  have init: "result (spsc_ring_init 4 True True empty_heap) = Inr (Some 0, ?s)"
    by (simp add: init_result empty_heap_def rep)
  have "\<exists>t. run_ops (Some 0) ?ops ?s =
          Inr ([11, 22, 33, 44], [(Some 0, Some 11), (None, None)], t)"
    by (simp add: eval_defs)
  then obtain t where run: "run_ops (Some 0) ?ops ?s =
      Inr ([11, 22, 33, 44], [(Some 0, Some 11), (None, None)], t)"
    by blast
  have len: "length [11, 22, 33 :: c_int] < unat (4 :: u32)"
    by simp
  note inst = fifo_order [OF init, of ?ops "[55]" "Some 0" "[11, 22, 33]" 0]
  from inst [THEN conjunct1] obtain pushed popped s' where
    a: "run_ops (Some 0) ?ops ?s = Inr (pushed, popped, s')"
    and b: "length pushed - length popped + length [55 :: c_int] < unat (4 :: u32) \<longrightarrow>
              (\<exists>s''. run_ops (Some 0)
                       (map Push [55] @
                        replicate (length pushed - length popped + length [55 :: c_int])
                          (Pop (Some 0))) s' =
                       Inr ([55],
                            map (\<lambda>v. (Some 0, map_option (\<lambda>_. v) (Some (0 :: c_int))))
                              (drop (length popped) pushed @ [55]),
                            s'') \<and>
                     result (spsc_ring_is_empty s'' (Some 0)) = Inr True)"
    by (elim conjE exE) (rule that, assumption+)
  have "Inr (pushed, popped, s') =
          (Inr ([11, 22, 33, 44], [(Some 0, Some 11), (None, None)], t) ::
             fault + (c_int list \<times> (c_int option \<times> c_int option) list \<times> heap))"
    unfolding a [symmetric] by (rule run)
  then have eq: "pushed = [11, 22, 33, 44]" "popped = [(Some 0, Some 11), (None, None)]" "s' = t"
    by simp_all
  have n: "length pushed - length popped + length [55 :: c_int] = 3"
    unfolding eq by simp
  have d: "map (\<lambda>v. (Some 0, map_option (\<lambda>_. v) (Some (0 :: c_int)))) (drop (length popped) pushed @ [55]) =
             [(Some (0 :: c_int), Some 33), (Some 0, Some 44), (Some 0, Some (55 :: c_int))]"
    unfolding eq by simp
  have "length pushed - length popped + length [55 :: c_int] < unat (4 :: u32)"
    unfolding n by simp
  with b obtain s'' where
    c: "run_ops (Some 0)
          (map Push [55] @
           replicate (length pushed - length popped + length [55 :: c_int]) (Pop (Some 0))) s' =
          Inr ([55],
               map (\<lambda>v. (Some 0, map_option (\<lambda>_. v) (Some (0 :: c_int))))
                 (drop (length popped) pushed @ [55]),
               s'')"
    and e: "result (spsc_ring_is_empty s'' (Some 0)) = Inr True"
    by blast
  have c': "run_ops (Some 0) (map Push [55] @ replicate 3 (Pop (Some 0))) t =
              Inr ([55], [(Some 0, Some 33), (Some 0, Some 44), (Some 0, Some 55)], s'')"
    using c unfolding n d eq(3) .
  from inst [THEN conjunct2, rule_format, OF len] obtain u where
    f: "run_ops (Some 0)
          (map Push [11, 22, 33] @ replicate (length [11, 22, 33 :: c_int]) (Pop (Some 0))) ?s =
          Inr ([11, 22, 33], map (\<lambda>v. (Some 0, Some v)) [11, 22, 33], u)"
    by blast
  from init run c' e len f show ?thesis by blast
qed

text \<open>
  Claim C2. On a fresh ring of capacity \<open>n\<close>, up to \<open>n - 1\<close> pushes all succeed; after them
  \<^verbatim>\<open>spsc_ring_is_full\<close> is true exactly when \<open>n - 1\<close> values were pushed, and then a further
  push returns \<open>-1\<close> and leaves the whole heap, so every slot, as it was.
\<close>

theorem full_detection:
  assumes "result (spsc_ring_init capacity ok1 ok2 s0) = Inr (Some a, s)"
    and "length vs \<le> unat capacity - 1"
  shows "\<exists>s'. run_ops (Some a) (map Push vs) s = Inr (vs, [], s') \<and>
              result (spsc_ring_is_full s' (Some a)) = Inr (length vs = unat capacity - 1) \<and>
              (length vs = unat capacity - 1 \<longrightarrow>
                 result (spsc_ring_push s' (Some a) v) = Inr (- 1, s'))"
proof -
  from init_inv [OF assms(1)] obtain k where k: "unat capacity = 2 ^ k" and inv: "ring_inv s a k []"
    by blast
  define N where "N = (2::nat) ^ k"
  have N: "0 < N" "unat capacity = N"
    using k by (simp_all add: N_def)
  with assms(2) have "length ([]::c_int list) + length vs < N" by simp
  then have "length ([]::c_int list) + length vs < 2 ^ k" by (simp only: N_def)
  from run_pushes [OF inv this] obtain s' where
    run: "run_ops (Some a) (map Push vs) s = Inr (vs, [], s')" and inv': "ring_inv s' a k vs"
    by auto
  have "(Suc (length vs) = N) = (length vs = unat capacity - 1)"
    using N by auto
  then have eq: "(Suc (length vs) = 2 ^ k) = (length vs = unat capacity - 1)"
    by (simp only: N_def)
  have "result (spsc_ring_is_full s' (Some a)) = Inr (length vs = unat capacity - 1)"
    using inv_is_full [OF inv'] eq by simp
  moreover have "result (spsc_ring_push s' (Some a) v) = Inr (- 1, s')"
    if "length vs = unat capacity - 1"
    using that eq inv_push_full [OF inv'] by simp
  ultimately show ?thesis using run by blast
qed

theorem full_detection_witness:
  "\<exists>s. result (spsc_ring_init 4 True True empty_heap) = Inr (Some 0, s) \<and>
       length [11, 22, 33 :: c_int] \<le> unat (4 :: u32) - 1 \<and>
       (\<exists>s'. run_ops (Some 0) (map Push [11, 22, 33]) s = Inr ([11, 22, 33], [], s') \<and>
             result (spsc_ring_is_full s' (Some 0)) = Inr True \<and>
             result (spsc_ring_push s' (Some 0) 44) = Inr (- 1, s')) \<and>
       length [11, 22 :: c_int] \<le> unat (4 :: u32) - 1 \<and>
       (\<exists>s'. run_ops (Some 0) (map Push [11, 22]) s = Inr ([11, 22], [], s') \<and>
             result (spsc_ring_is_full s' (Some 0)) = Inr False)"
proof -
  obtain s where init: "result (spsc_ring_init 4 True True empty_heap) = Inr (Some 0, s)"
    by (simp add: init_result empty_heap_def)
  have l3: "length [11, 22, 33 :: c_int] \<le> unat (4 :: u32) - 1"
    and e3: "length [11, 22, 33 :: c_int] = unat (4 :: u32) - 1"
    and l2: "length [11, 22 :: c_int] \<le> unat (4 :: u32) - 1"
    and e2: "length [11, 22 :: c_int] \<noteq> unat (4 :: u32) - 1"
    by simp_all
  from full_detection [OF init l3, of 44] e3 obtain s3 where
    "run_ops (Some 0) (map Push [11, 22, 33]) s = Inr ([11, 22, 33], [], s3)"
    "result (spsc_ring_is_full s3 (Some 0)) = Inr True"
    "result (spsc_ring_push s3 (Some 0) 44) = Inr (- 1, s3)"
    by auto
  moreover from full_detection [OF init l2, of 44] e2 obtain s2 where
    "run_ops (Some 0) (map Push [11, 22]) s = Inr ([11, 22], [], s2)"
    "result (spsc_ring_is_full s2 (Some 0)) = Inr False"
    by auto
  ultimately show ?thesis using init l3 l2 by blast
qed



text \<open>
  Claim C4. \<^verbatim>\<open>spsc_ring_init\<close> returns \<^verbatim>\<open>NULL\<close> when the capacity is zero or not a power of
  two, or when one of its allocations fails. Otherwise it returns a ring whose mask is
  the capacity minus one, whose size is the capacity, whose cursors are both 0, and
  whose slot array has the length of the capacity (all zero).
\<close>

theorem init_spec:
  "(capacity = 0 \<or> (\<nexists>k. unat capacity = 2 ^ k) \<or> \<not> ok1 \<or> \<not> ok2 \<longrightarrow>
      (\<exists>s'. result (spsc_ring_init capacity ok1 ok2 s) = Inr (None, s'))) \<and>
   (capacity \<noteq> 0 \<and> (\<exists>k. unat capacity = 2 ^ k) \<and> ok1 \<and> ok2 \<longrightarrow>
      (\<exists>a b r s'. result (spsc_ring_init capacity ok1 ok2 s) = Inr (Some a, s') \<and>
         ring_mem s' a = Some r \<and> mask_r r = capacity - 1 \<and> size_r r = capacity \<and>
         head r = 0 \<and> tail r = 0 \<and> buf r = Some b \<and>
         int_mem s' b = Some (replicate (unat capacity) 0)))"
proof -
  have chk: "(capacity \<noteq> 0 \<and> capacity AND (capacity - 1) = 0) = (\<exists>k. unat capacity = 2 ^ k)"
    by (rule pow2_check_iff)
  have bad: "\<exists>s'. result (spsc_ring_init capacity ok1 ok2 s) = Inr (None, s')"
    if "capacity = 0 \<or> (\<nexists>k. unat capacity = 2 ^ k) \<or> \<not> ok1 \<or> \<not> ok2"
    using that chk by (auto simp: init_result)
  have good: "\<exists>a b r s'. result (spsc_ring_init capacity ok1 ok2 s) = Inr (Some a, s') \<and>
         ring_mem s' a = Some r \<and> mask_r r = capacity - 1 \<and> size_r r = capacity \<and>
         head r = 0 \<and> tail r = 0 \<and> buf r = Some b \<and>
         int_mem s' b = Some (replicate (unat capacity) 0)"
    if "capacity \<noteq> 0 \<and> (\<exists>k. unat capacity = 2 ^ k) \<and> ok1 \<and> ok2"
  proof -
    from that chk have "capacity \<noteq> 0" "capacity AND (capacity - 1) = 0" "ok1" "ok2"
      by blast+
    then show ?thesis by (simp add: init_result)
  qed
  from bad good show ?thesis by blast
qed

theorem init_spec_witness:
  "(\<exists>s'. result (spsc_ring_init 0 True True empty_heap) = Inr (None, s')) \<and>
   (\<nexists>k. unat (3 :: u32) = 2 ^ k) \<and>
   (\<exists>s'. result (spsc_ring_init 3 True True empty_heap) = Inr (None, s')) \<and>
   (\<exists>s'. result (spsc_ring_init 4 True False empty_heap) = Inr (None, s')) \<and>
   (4 :: u32) \<noteq> 0 \<and> (\<exists>k. unat (4 :: u32) = 2 ^ k) \<and>
   (\<exists>a b r s'. result (spsc_ring_init 4 True True empty_heap) = Inr (Some a, s') \<and>
      ring_mem s' a = Some r \<and> mask_r r = 4 - 1 \<and> size_r r = 4 \<and>
      head r = 0 \<and> tail r = 0 \<and> buf r = Some b \<and>
      int_mem s' b = Some (replicate (unat (4 :: u32)) 0))"
proof -
  have three: "\<nexists>k. unat (3 :: u32) = 2 ^ k"
    using pow2_check_iff [of 3] by simp
  have four: "\<exists>k. unat (4 :: u32) = 2 ^ k"
    using pow2_check_iff [of 4] by simp
  from init_spec [of 0 True True empty_heap]
  have a: "\<exists>s'. result (spsc_ring_init 0 True True empty_heap) = Inr (None, s')"
    by simp
  from init_spec [of 3 True True empty_heap] three
  have b: "\<exists>s'. result (spsc_ring_init 3 True True empty_heap) = Inr (None, s')"
    by blast
  from init_spec [of 4 True False empty_heap]
  have c: "\<exists>s'. result (spsc_ring_init 4 True False empty_heap) = Inr (None, s')"
    by blast
  from init_spec [of 4 True True empty_heap] four
  have d: "\<exists>a b r s'. result (spsc_ring_init 4 True True empty_heap) = Inr (Some a, s') \<and>
      ring_mem s' a = Some r \<and> mask_r r = 4 - 1 \<and> size_r r = 4 \<and>
      head r = 0 \<and> tail r = 0 \<and> buf r = Some b \<and>
      int_mem s' b = Some (replicate (unat (4 :: u32)) 0)"
    by simp
  from a three b c four d show ?thesis by simp
qed

text \<open>
  Claim C5. After every sequence of pushes and pops on a ring returned by
  \<^verbatim>\<open>spsc_ring_init\<close>, the unsigned 32-bit difference \<open>tail - head\<close> is at most the capacity
  minus one.
\<close>

theorem cursor_difference_bound:
  assumes "result (spsc_ring_init capacity ok1 ok2 s0) = Inr (Some a, s)"
  shows "\<exists>pushed popped s' r.
           run_ops (Some a) ops s = Inr (pushed, popped, s') \<and> ring_mem s' a = Some r \<and>
           unat (tail r - head r) \<le> unat capacity - 1"
proof -
  from init_inv [OF assms] obtain k where k: "unat capacity = 2 ^ k" and inv: "ring_inv s a k []"
    by blast
  from run_ops_inv [OF inv, of ops] obtain pushed popped s' q' where
    run: "run_ops (Some a) ops s = Inr (pushed, popped, s')" and inv': "ring_inv s' a k q'"
    by blast
  from inv_cursor_bound [OF inv' k] run show ?thesis by blast
qed

theorem cursor_difference_bound_witness:
  "\<exists>s. result (spsc_ring_init 4 True True empty_heap) = Inr (Some 0, s) \<and>
       (\<exists>pushed popped s' r.
          run_ops (Some 0) [Push 11, Push 22, Push 33, Push 44, Pop (Some 0), Push 55] s =
            Inr (pushed, popped, s') \<and>
          ring_mem s' 0 = Some r \<and> unat (tail r - head r) \<le> unat (4 :: u32) - 1)"
proof -
  obtain s where init: "result (spsc_ring_init 4 True True empty_heap) = Inr (Some 0, s)"
    by (simp add: init_result empty_heap_def)
  from cursor_difference_bound [OF init] init show ?thesis
    by blast
qed

text \<open>
  Claim C6. A push on a full ring returns \<open>-1\<close> with the heap unchanged, and whenever a push
  returns \<open>-1\<close> the heap is the one before the call. A pop on an empty ring returns \<open>-1\<close>
  with the heap and the output location unchanged, and whenever a pop returns \<open>-1\<close> both
  are as before the call. The ring after a failed call is the ring before it.
\<close>

theorem failure_no_effect:
  "(result (spsc_ring_is_full s ring) = Inr True \<longrightarrow>
      result (spsc_ring_push s ring v) = Inr (- 1, s)) \<and>
   (result (spsc_ring_push s ring v) = Inr (- 1, s') \<longrightarrow> s' = s) \<and>
   (result (spsc_ring_is_empty s ring) = Inr True \<longrightarrow>
      result (spsc_ring_pop s ring out) = Inr (- 1, out, s)) \<and>
   (result (spsc_ring_pop s ring out) = Inr (- 1, out', s') \<longrightarrow> s' = s \<and> out' = out)"
proof -
  have a1: "result (spsc_ring_push s ring v) = Inr (- 1, s)"
    if "result (spsc_ring_is_full s ring) = Inr True"
    using that
    by (auto simp: result_def spsc_ring_push_def spsc_ring_is_full_def load_ring_def
        split: sum.splits option.splits prod.splits)
  have a2: "s' = s" if "result (spsc_ring_push s ring v) = Inr (- 1, s')"
    using that
    by (auto simp: result_def spsc_ring_push_def Let_def
        split: sum.splits option.splits prod.splits if_splits)
  have a3: "result (spsc_ring_pop s ring out) = Inr (- 1, out, s)"
    if "result (spsc_ring_is_empty s ring) = Inr True"
    using that
    by (auto simp: result_def spsc_ring_pop_def spsc_ring_is_empty_def load_ring_def Let_def
        split: sum.splits option.splits prod.splits)
  have a4: "s' = s \<and> out' = out"
    if "result (spsc_ring_pop s ring out) = Inr (- 1, out', s')"
    using that
    by (auto simp: result_def spsc_ring_pop_def Let_def
        split: sum.splits option.splits prod.splits if_splits)
  from a1 a2 a3 a4 show ?thesis by blast
qed

theorem failure_no_effect_witness:
  "\<exists>s s1. result (spsc_ring_init 2 True True empty_heap) = Inr (Some 0, s) \<and>
          result (spsc_ring_push s (Some 0) 7) = Inr (0, s1) \<and>
          result (spsc_ring_is_full s1 (Some 0)) = Inr True \<and>
          result (spsc_ring_push s1 (Some 0) 9) = Inr (- 1, s1) \<and>
          result (spsc_ring_is_empty s (Some 0)) = Inr True \<and>
          result (spsc_ring_pop s (Some 0) (Some 5)) = Inr (- 1, Some 5, s)"
proof -
  let ?r = "\<lparr>buf = Some 1, size_r = 2, mask_r = 1, head = 0, tail = 0\<rparr>"
  let ?s = "\<lparr>ring_mem = [0 \<mapsto> ?r], int_mem = [1 \<mapsto> [0, 0]], next_addr = 2\<rparr>"
  let ?s1 = "\<lparr>ring_mem = [0 \<mapsto> ?r\<lparr>tail := 1\<rparr>], int_mem = [1 \<mapsto> [7, 0]], next_addr = 2\<rparr>"
  have rep: "replicate 2 (0 :: c_int) = [0, 0]"
    by (simp add: numeral_2_eq_2)
  have init: "result (spsc_ring_init 2 True True empty_heap) = Inr (Some 0, ?s)"
    by (simp add: init_result empty_heap_def rep)
  have push: "result (spsc_ring_push ?s (Some 0) 7) = Inr (0, ?s1)"
    by (simp add: eval_defs)
  have full: "result (spsc_ring_is_full ?s1 (Some 0)) = Inr True"
    by (simp add: eval_defs)
  have empty: "result (spsc_ring_is_empty ?s (Some 0)) = Inr True"
    by (simp add: eval_defs)
  from failure_no_effect [of ?s1 "Some 0" 9 ?s1] full
  have f1: "result (spsc_ring_push ?s1 (Some 0) 9) = Inr (- 1, ?s1)"
    by blast
  from failure_no_effect [of ?s "Some 0" 9 ?s "Some 5" "Some 5"] empty
  have f2: "result (spsc_ring_pop ?s (Some 0) (Some 5)) = Inr (- 1, Some 5, ?s)"
    by blast
  from init push full f1 empty f2 show ?thesis by blast
qed

text \<open>
  Claim C7. \<^verbatim>\<open>spsc_ring_destroy\<close> does nothing when given \<^verbatim>\<open>NULL\<close> or a reference that holds
  \<^verbatim>\<open>NULL\<close>. On a reference to a ring made by \<^verbatim>\<open>spsc_ring_init\<close>, in any state the ring can
  reach, it frees the slot array and the structure and leaves \<^verbatim>\<open>NULL\<close> in the reference;
  a second call on that reference changes nothing.
\<close>

theorem destroy_spec:
  assumes "result (spsc_ring_init capacity ok1 ok2 s0) = Inr (Some a, s)"
  shows "spsc_ring_destroy t None = Inr (t, None) \<and>
         spsc_ring_destroy t (Some None) = Inr (t, Some None) \<and>
         (\<exists>pushed popped s1 r b s2.
            run_ops (Some a) ops s = Inr (pushed, popped, s1) \<and>
            ring_mem s1 a = Some r \<and> buf r = Some b \<and>
            s2 = s1\<lparr>int_mem := (int_mem s1)(b := None), ring_mem := (ring_mem s1)(a := None)\<rparr> \<and>
            spsc_ring_destroy s1 (Some (Some a)) = Inr (s2, Some None) \<and>
            spsc_ring_destroy s2 (Some None) = Inr (s2, Some None))"
proof -
  from init_inv [OF assms] obtain k where inv: "ring_inv s a k []"
    by blast
  from run_ops_inv [OF inv, of ops] obtain pushed popped s1 q' where
    run: "run_ops (Some a) ops s = Inr (pushed, popped, s1)" and inv1: "ring_inv s1 a k q'"
    by blast
  from inv1 obtain r b xs where r: "ring_mem s1 a = Some r" "buf r = Some b"
    "int_mem s1 b = Some xs"
    by (auto simp: ring_inv_def)
  let ?s2 = "s1\<lparr>int_mem := (int_mem s1)(b := None), ring_mem := (ring_mem s1)(a := None)\<rparr>"
  have d: "spsc_ring_destroy s1 (Some (Some a)) = Inr (?s2, Some None)"
    using r by (simp add: spsc_ring_destroy_def load_ring_def free_int_def free_ring_def)
  have n: "spsc_ring_destroy u None = Inr (u, None)"
    "spsc_ring_destroy u (Some None) = Inr (u, Some None)" for u
    by (simp_all add: spsc_ring_destroy_def)
  from run r d n show ?thesis by blast
qed

theorem destroy_spec_witness:
  "\<exists>s. result (spsc_ring_init 4 True True empty_heap) = Inr (Some 0, s) \<and>
       (\<exists>pushed popped s1 s2.
          run_ops (Some 0) [Push 11, Push 22, Pop None] s = Inr (pushed, popped, s1) \<and>
          spsc_ring_destroy s1 (Some (Some 0)) = Inr (s2, Some None) \<and>
          ring_mem s2 0 = None \<and>
          spsc_ring_destroy s2 (Some None) = Inr (s2, Some None))"
proof -
  obtain s where init: "result (spsc_ring_init 4 True True empty_heap) = Inr (Some 0, s)"
    by (simp add: init_result empty_heap_def)
  from destroy_spec [OF init, of _ "[Push 11, Push 22, Pop None]"] obtain pushed popped s1 r b s2
    where "run_ops (Some 0) [Push 11, Push 22, Pop None] s = Inr (pushed, popped, s1)"
      "s2 = s1\<lparr>int_mem := (int_mem s1)(b := None), ring_mem := (ring_mem s1)(0 := None)\<rparr>"
      "spsc_ring_destroy s1 (Some (Some 0)) = Inr (s2, Some None)"
      "spsc_ring_destroy s2 (Some None) = Inr (s2, Some None)"
    by blast
  moreover from this have "ring_mem s2 0 = None" by simp
  ultimately show ?thesis using init by blast
qed

text \<open>
  Claim C8 says that \<^verbatim>\<open>spsc_ring_is_full\<close> loads the read cursor with acquire ordering and
  the write cursor with relaxed ordering. The function does the opposite: on the fresh
  ring of capacity 4 its accesses are a relaxed load of \<^verbatim>\<open>head\<close> followed by an acquire
  load of \<^verbatim>\<open>tail\<close>, the orderings of \<^verbatim>\<open>spsc_ring_is_empty\<close>.
\<close>

theorem is_full_memory_orders:
  "\<exists>s. result (spsc_ring_init 4 True True empty_heap) = Inr (Some 0, s) \<and>
       spsc_ring_is_full s (Some 0) =
         Inr (False, [Load Head memory_order_relaxed, Load Tail memory_order_acquire])"
  by (simp add: init_result empty_heap_def is_full_alloc)

text \<open>
  Claim C9. \<^verbatim>\<open>spsc_ring_push\<close> on a \<^verbatim>\<open>NULL\<close> ring returns \<open>-1\<close> and leaves the heap unchanged,
  for every value. The other three operations have no such guard: on \<^verbatim>\<open>NULL\<close> they
  dereference it.
\<close>

theorem push_null_guard:
  "result (spsc_ring_push s None v) = Inr (- 1, s) \<and>
   spsc_ring_pop s None out = Inl NullDeref \<and>
   spsc_ring_is_empty s None = Inl NullDeref \<and>
   spsc_ring_is_full s None = Inl NullDeref"
  by (simp add: result_def spsc_ring_push_def spsc_ring_pop_def spsc_ring_is_empty_def
      spsc_ring_is_full_def load_ring_def)

text \<open>
  Claim C10. \<^verbatim>\<open>spsc_ring_init\<close> accepts capacity 1. On the ring it returns both
  \<^verbatim>\<open>spsc_ring_is_empty\<close> and \<^verbatim>\<open>spsc_ring_is_full\<close> are true, no push or pop of any sequence
  succeeds or changes the heap, and so every push returns \<open>-1\<close>.
\<close>

theorem capacity_one:
  "\<exists>a s. result (spsc_ring_init 1 True True s0) = Inr (Some a, s) \<and>
          result (spsc_ring_is_empty s (Some a)) = Inr True \<and>
          result (spsc_ring_is_full s (Some a)) = Inr True \<and>
          run_ops (Some a) ops s = Inr ([], [], s) \<and>
          result (spsc_ring_push s (Some a) v) = Inr (- 1, s)"
proof -
  obtain a s where init: "result (spsc_ring_init 1 True True s0) = Inr (Some a, s)"
    by (simp add: init_result)
  from init_inv [OF init] obtain k where k: "unat (1::32 word) = 2 ^ k" and inv: "ring_inv s a k []"
    by blast
  from k have "k = 0" by (cases k) simp_all
  with inv have inv0: "ring_inv s a 0 []" by simp
  have "result (spsc_ring_is_empty s (Some a)) = Inr True"
    using inv_is_empty [OF inv0] by simp
  moreover have "result (spsc_ring_is_full s (Some a)) = Inr True"
    using inv_is_full [OF inv0] by simp
  moreover have "run_ops (Some a) ops s = Inr ([], [], s)"
    by (rule run_ops_capacity_one [OF inv0])
  moreover have "result (spsc_ring_push s (Some a) v) = Inr (- 1, s)"
    using inv_push_full [OF inv0] by simp
  ultimately show ?thesis using init by blast
qed

end
